theory Spec2Isabelle
  imports Complex_Main "HOL-Library.Char_ord" "HOL-Library.List_Lexorder" "HOL-Library.Multiset"
begin

section \<open>Data model of \<^verbatim>\<open>blockchain.py\<close>\<close>

text \<open>
  Python floats (\<^verbatim>\<open>amount\<close>, both \<^verbatim>\<open>timestamp\<close> attributes): a finite value or one
  of the three special values.  No arithmetic is ever done on them by the program.
\<close>

datatype pyfloat = Finite rat | PosInf | NegInf | NaN

fun is_finite :: "pyfloat \<Rightarrow> bool" where
  "is_finite (Finite _) = True"
| "is_finite _ = False"

text \<open>
  \<^verbatim>\<open>class Transaction\<close>.  The attribute \<^verbatim>\<open>timestamp\<close> is called \<open>tx_timestamp\<close> here,
  since \<^verbatim>\<open>class Block\<close> has an attribute of the same name.
\<close>

record transaction =
  sender :: string
  recipient :: string
  amount :: pyfloat
  tx_timestamp :: pyfloat

text \<open>\<^verbatim>\<open>class Block\<close>; Python integers are unbounded.\<close>

record block =
  index :: int
  timestamp :: pyfloat
  transactions :: "transaction list"
  previous_hash :: string
  nonce :: int
  hash :: string

text \<open>\<^verbatim>\<open>class IndianBlockchain\<close>.\<close>

record blockchain =
  chain :: "block list"
  difficulty :: int
  pending_transactions :: "transaction list"

text \<open>The one exception the program can raise: \<^verbatim>\<open>self.chain[-1]\<close> on an empty list.\<close>

datatype error = IndexError

section \<open>Values handed to \<^verbatim>\<open>json.dumps\<close>\<close>

text \<open>
  A Python dict keeps its items in insertion order, so a dict is the list of its items.
\<close>

datatype json =
    JInt int
  | JFloat pyfloat
  | JStr string
  | JList "json list"
  | JDict "(string \<times> json) list"

text \<open>
  \<^verbatim>\<open>json.dumps(v, sort_keys=True)\<close> writes the items of every dict in the order of their
  keys (Python compares strings lexicographically by code point).  \<open>sort_keys\<close> is that
  reordering; what is then written out, encoded and hashed is the parameter \<open>H\<close> of
  \<open>calculate_hash\<close> below.
\<close>

primrec sort_keys :: "json \<Rightarrow> json" where
  "sort_keys (JInt n) = JInt n"
| "sort_keys (JFloat x) = JFloat x"
| "sort_keys (JStr s) = JStr s"
| "sort_keys (JList vs) = JList (map sort_keys vs)"
| "sort_keys (JDict kvs) = JDict (sort_key fst (map (map_prod id sort_keys) kvs))"

section \<open>Transaction\<close>

text \<open>
  \<^verbatim>\<open>Transaction.__init__\<close>; the reading of \<^verbatim>\<open>time.time()\<close> is the argument \<open>now\<close>.
\<close>

definition Transaction :: "string \<Rightarrow> string \<Rightarrow> pyfloat \<Rightarrow> pyfloat \<Rightarrow> transaction" where
  "Transaction s r a now =
     \<lparr>sender = s, recipient = r, amount = a, tx_timestamp = now\<rparr>"

definition to_dict :: "transaction \<Rightarrow> json" where
  "to_dict t = JDict
     [(''sender'', JStr (sender t)),
      (''recipient'', JStr (recipient t)),
      (''amount'', JFloat (amount t)),
      (''timestamp'', JFloat (tx_timestamp t))]"

section \<open>Block\<close>

definition block_content :: "block \<Rightarrow> json" where
  "block_content b = JDict
     [(''index'', JInt (index b)),
      (''timestamp'', JFloat (timestamp b)),
      (''transactions'', JList (map to_dict (transactions b))),
      (''previous_hash'', JStr (previous_hash b)),
      (''nonce'', JInt (nonce b))]"

text \<open>
  \<^verbatim>\<open>Block.calculate_hash\<close>.  \<open>H v\<close> stands for
  \<^verbatim>\<open>hashlib.sha256(s.encode()).hexdigest()\<close> where \<^verbatim>\<open>s\<close> is the text \<^verbatim>\<open>json.dumps\<close> writes
  for the key-sorted value \<open>v\<close>; both are library code, taken as a parameter.
\<close>

definition calculate_hash :: "(json \<Rightarrow> string) \<Rightarrow> block \<Rightarrow> string" where
  "calculate_hash H b = H (sort_keys (block_content b))"

text \<open>\<^verbatim>\<open>Block.__init__\<close>; \<open>now\<close> is the reading of \<^verbatim>\<open>time.time()\<close>.\<close>

definition Block :: "(json \<Rightarrow> string) \<Rightarrow> int \<Rightarrow> transaction list \<Rightarrow> string \<Rightarrow> pyfloat \<Rightarrow> block" where
  "Block H i txs prev now =
     (let b = \<lparr>index = i, timestamp = now, transactions = txs, previous_hash = prev,
                nonce = 0, hash = []\<rparr>
      in b\<lparr>hash := calculate_hash H b\<rparr>)"

text \<open>Python's \<^verbatim>\<open>s[:d]\<close> and \<^verbatim>\<open>c * d\<close> for an arbitrary integer \<open>d\<close>.\<close>

definition py_prefix :: "int \<Rightarrow> string \<Rightarrow> string" where
  "py_prefix d s = (if 0 \<le> d then take (nat d) s else take (length s - nat (- d)) s)"

definition py_repeat :: "char \<Rightarrow> int \<Rightarrow> string" where
  "py_repeat c d = replicate (nat d) c"

text \<open>
  The body of the loop of \<^verbatim>\<open>Block.mine_block\<close>:
  \<^verbatim>\<open>self.nonce += 1; self.hash = self.calculate_hash()\<close>.
\<close>

definition mine_step :: "(json \<Rightarrow> string) \<Rightarrow> block \<Rightarrow> block" where
  "mine_step H b =
     (let b1 = b\<lparr>nonce := nonce b + 1\<rparr>
      in b1\<lparr>hash := calculate_hash H b1\<rparr>)"

text \<open>
  \<^verbatim>\<open>Block.mine_block\<close>: \<^verbatim>\<open>while self.hash[:difficulty] != target\<close> with
  \<^verbatim>\<open>target = '0' * difficulty\<close>.  The loop has no bound: \<open>None\<close> is the run that
  never ends.
\<close>

partial_function (option) mine_block :: "(json \<Rightarrow> string) \<Rightarrow> int \<Rightarrow> block \<Rightarrow> block option" where
  "mine_block H d b =
     (if py_prefix d (hash b) \<noteq> py_repeat CHR ''0'' d
      then mine_block H d (mine_step H b)
      else Some b)"

declare mine_block.simps [code]

section \<open>IndianBlockchain\<close>

text \<open>
  \<^verbatim>\<open>create_genesis_block\<close>: the genesis block is built, mined and appended.
\<close>

definition create_genesis_block :: "(json \<Rightarrow> string) \<Rightarrow> blockchain \<Rightarrow> pyfloat \<Rightarrow> blockchain option" where
  "create_genesis_block H c now =
     (case mine_block H (difficulty c) (Block H 0 [] (py_repeat CHR ''0'' 64) now) of
        None \<Rightarrow> None
      | Some genesis_block \<Rightarrow> Some (c\<lparr>chain := chain c @ [genesis_block]\<rparr>))"

text \<open>
  \<^verbatim>\<open>IndianBlockchain.__init__(self, difficulty: int = 4)\<close>: \<open>None\<close> for the argument is
  the call that leaves \<^verbatim>\<open>difficulty\<close> out.
\<close>

definition IndianBlockchain :: "(json \<Rightarrow> string) \<Rightarrow> int option \<Rightarrow> pyfloat \<Rightarrow> blockchain option" where
  "IndianBlockchain H dopt now =
     create_genesis_block H
       \<lparr>chain = [], difficulty = (case dopt of None \<Rightarrow> 4 | Some d \<Rightarrow> d),
        pending_transactions = []\<rparr> now"

text \<open>\<^verbatim>\<open>get_latest_block\<close>: \<^verbatim>\<open>self.chain[-1]\<close> raises on the empty list.\<close>

definition get_latest_block :: "blockchain \<Rightarrow> error + block" where
  "get_latest_block c = (if chain c = [] then Inl IndexError else Inr (last (chain c)))"

definition add_transaction :: "blockchain \<Rightarrow> string \<Rightarrow> string \<Rightarrow> pyfloat \<Rightarrow> pyfloat \<Rightarrow> blockchain" where
  "add_transaction c s r a now =
     c\<lparr>pending_transactions := pending_transactions c @ [Transaction s r a now]\<rparr>"

text \<open>
  \<^verbatim>\<open>mine_pending_transactions\<close>.  \<open>now_tx\<close> and \<open>now_block\<close> are the two readings of the
  clock (reward transaction, new block).  When \<^verbatim>\<open>get_latest_block\<close> raises, the reward
  is already in the pool: the error carries the state left behind.
\<close>

definition mine_pending_transactions ::
  "(json \<Rightarrow> string) \<Rightarrow> blockchain \<Rightarrow> string \<Rightarrow> pyfloat \<Rightarrow> pyfloat
     \<Rightarrow> (error \<times> blockchain + blockchain) option" where
  "mine_pending_transactions H c miner_address now_tx now_block =
     (let c1 = add_transaction c ''Network'' miner_address (Finite 10) now_tx
      in case get_latest_block c1 of
           Inl e \<Rightarrow> Some (Inl (e, c1))
         | Inr tip \<Rightarrow>
             (case mine_block H (difficulty c1)
                     (Block H (int (length (chain c1))) (pending_transactions c1)
                        (hash tip) now_block) of
                None \<Rightarrow> None
              | Some b \<Rightarrow>
                  Some (Inr (c1\<lparr>chain := chain c1 @ [b], pending_transactions := []\<rparr>))))"

text \<open>
  \<^verbatim>\<open>is_chain_valid\<close> prints one line and returns a boolean; \<open>report\<close> is the line printed.
\<close>

datatype report = InvalidHash nat | InvalidLinkage nat | InvalidPoW nat | ChainValid

text \<open>
  The body of \<^verbatim>\<open>for i in range(1, len(self.chain))\<close>, over the indices still to visit.
  Every index visited is below the length of the chain and at least 1.
\<close>

fun check_blocks :: "(json \<Rightarrow> string) \<Rightarrow> int \<Rightarrow> block list \<Rightarrow> nat list \<Rightarrow> report" where
  "check_blocks H d ch [] = ChainValid"
| "check_blocks H d ch (i # js) =
     (let current_block = ch ! i; previous_block = ch ! (i - 1)
      in if hash current_block \<noteq> calculate_hash H current_block then InvalidHash i
         else if previous_hash current_block \<noteq> hash previous_block then InvalidLinkage i
         else if py_prefix d (hash current_block) \<noteq> py_repeat CHR ''0'' d then InvalidPoW i
         else check_blocks H d ch js)"

definition is_chain_valid_report :: "(json \<Rightarrow> string) \<Rightarrow> blockchain \<Rightarrow> report" where
  "is_chain_valid_report H c =
     check_blocks H (difficulty c) (chain c) [1..<length (chain c)]"

definition is_chain_valid :: "(json \<Rightarrow> string) \<Rightarrow> blockchain \<Rightarrow> bool" where
  "is_chain_valid H c =
     (case is_chain_valid_report H c of ChainValid \<Rightarrow> True | _ \<Rightarrow> False)"

text \<open>
  The chains a caller can build: construction, then any sequence of
  \<^verbatim>\<open>add_transaction\<close> and \<^verbatim>\<open>mine_pending_transactions\<close> calls that return.
\<close>

inductive reachable :: "(json \<Rightarrow> string) \<Rightarrow> blockchain \<Rightarrow> bool" for H where
  init: "IndianBlockchain H dopt now = Some c \<Longrightarrow> reachable H c"
| add: "reachable H c \<Longrightarrow> reachable H (add_transaction c s r a now)"
| mine: "reachable H c \<Longrightarrow> mine_pending_transactions H c m now_tx now_block = Some (Inr c')
           \<Longrightarrow> reachable H c'"

section \<open>A small digest for running the definitions\<close>

text \<open>
  \<open>demo_digest\<close> is an instance of the parameter \<open>H\<close> that the simplifier can evaluate:
  64 lower-case hexadecimal characters computed from a weight of the value.  It is used
  only to run the operations on concrete chains.
\<close>

primrec weight :: "json \<Rightarrow> nat" where
  "weight (JInt n) = nat \<bar>n\<bar>"
| "weight (JFloat x) = (case x of Finite r \<Rightarrow> nat \<lfloor>\<bar>r\<bar>\<rfloor> | _ \<Rightarrow> 1)"
| "weight (JStr s) = length s"
| "weight (JList vs) = sum_list (map weight vs)"
| "weight (JDict kvs) = sum_list (map snd (map (map_prod id weight) kvs))"

definition demo_digest :: "json \<Rightarrow> string" where
  "demo_digest v =
     (let w = weight v
      in (''0123'' ! (w mod 4)) # replicate (w mod 7) CHR ''a'' @ replicate (63 - w mod 7) CHR ''b'')"

section \<open>Notions used to state the properties\<close>

text \<open>The items of a dict, in insertion order (\<^verbatim>\<open>dict.items()\<close>).\<close>

fun items :: "json \<Rightarrow> (string \<times> json) list" where
  "items (JDict kvs) = kvs"
| "items _ = []"

text \<open>
  One round of the loop of \<^verbatim>\<open>is_chain_valid\<close> at index \<open>i\<close>: \<open>passes\<close> holds when none
  of the three \<^verbatim>\<open>if\<close> statements fires, \<open>finding\<close> is the line printed by the first one
  that does.
\<close>

definition passes :: "(json \<Rightarrow> string) \<Rightarrow> int \<Rightarrow> block list \<Rightarrow> nat \<Rightarrow> bool" where
  "passes H d ch i \<longleftrightarrow>
     hash (ch ! i) = calculate_hash H (ch ! i)
   \<and> previous_hash (ch ! i) = hash (ch ! (i - 1))
   \<and> py_prefix d (hash (ch ! i)) = py_repeat CHR ''0'' d"

definition finding :: "(json \<Rightarrow> string) \<Rightarrow> int \<Rightarrow> block list \<Rightarrow> nat \<Rightarrow> report" where
  "finding H d ch i =
     (if hash (ch ! i) \<noteq> calculate_hash H (ch ! i) then InvalidHash i
      else if previous_hash (ch ! i) \<noteq> hash (ch ! (i - 1)) then InvalidLinkage i
      else InvalidPoW i)"

text \<open>
  The three checks in the words of the specification, for a difficulty that is a count
  of characters: (a) the stored hash is the recomputed one, (b) the stored previous hash
  is the stored hash of the block before, (c) the first \<open>difficulty\<close> characters of the
  stored hash are all \<open>0\<close>.
\<close>

definition three_checks :: "(json \<Rightarrow> string) \<Rightarrow> blockchain \<Rightarrow> nat \<Rightarrow> bool" where
  "three_checks H c i \<longleftrightarrow>
     hash (chain c ! i) = calculate_hash H (chain c ! i)
   \<and> previous_hash (chain c ! i) = hash (chain c ! (i - 1))
   \<and> take (nat (difficulty c)) (hash (chain c ! i)) = replicate (nat (difficulty c)) CHR ''0''"

text \<open>The invariant of the chains built by the operations.\<close>

definition chain_inv :: "(json \<Rightarrow> string) \<Rightarrow> blockchain \<Rightarrow> bool" where
  "chain_inv H c \<longleftrightarrow>
     chain c \<noteq> []
   \<and> previous_hash (chain c ! 0) = replicate 64 CHR ''0''
   \<and> (\<forall>i\<in>{1..<length (chain c)}. passes H (difficulty c) (chain c) i)"

section \<open>Concrete chains\<close>

text \<open>
  The chain built with \<open>demo_digest\<close> at difficulty 1 by the calls
  \<^verbatim>\<open>add_transaction("A", "B", 100.0)\<close>, \<^verbatim>\<open>mine_pending_transactions("M")\<close>,
  \<^verbatim>\<open>add_transaction("B", "C", 50.0)\<close>, \<^verbatim>\<open>mine_pending_transactions("M")\<close>, the clock
  reading 0, 1, 2, ... at its successive calls.
\<close>

definition demo_genesis :: block where
  "demo_genesis =
     \<lparr>index = 0, timestamp = Finite 0, transactions = [],
      previous_hash = replicate 64 CHR ''0'', nonce = 0,
      hash = CHR ''0'' # CHR ''a'' # replicate 62 CHR ''b''\<rparr>"

definition demo_block1 :: block where
  "demo_block1 =
     \<lparr>index = 1, timestamp = Finite 3,
      transactions =
        [\<lparr>sender = ''A'', recipient = ''B'', amount = Finite 100, tx_timestamp = Finite 1\<rparr>,
         \<lparr>sender = ''Network'', recipient = ''M'', amount = Finite 10, tx_timestamp = Finite 2\<rparr>],
      previous_hash = CHR ''0'' # CHR ''a'' # replicate 62 CHR ''b'', nonce = 1,
      hash = CHR ''0'' # replicate 3 CHR ''a'' @ replicate 60 CHR ''b''\<rparr>"

definition demo_block2 :: block where
  "demo_block2 =
     \<lparr>index = 2, timestamp = Finite 6,
      transactions =
        [\<lparr>sender = ''B'', recipient = ''C'', amount = Finite 50, tx_timestamp = Finite 4\<rparr>,
         \<lparr>sender = ''Network'', recipient = ''M'', amount = Finite 10, tx_timestamp = Finite 5\<rparr>],
      previous_hash = CHR ''0'' # replicate 3 CHR ''a'' @ replicate 60 CHR ''b'', nonce = 1,
      hash = CHR ''0'' # replicate 5 CHR ''a'' @ replicate 58 CHR ''b''\<rparr>"

definition demo0 :: blockchain where
  "demo0 = \<lparr>chain = [demo_genesis], difficulty = 1, pending_transactions = []\<rparr>"

definition demo1 :: blockchain where
  "demo1 = \<lparr>chain = [demo_genesis, demo_block1], difficulty = 1, pending_transactions = []\<rparr>"

definition demo2 :: blockchain where
  "demo2 =
     \<lparr>chain = [demo_genesis, demo_block1, demo_block2], difficulty = 1,
      pending_transactions = []\<rparr>"

text \<open>
  The tampering of \<^verbatim>\<open>demonstrate_blockchain\<close>:
  \<^verbatim>\<open>blockchain.chain[1].transactions[0].amount = 2000.0\<close>.
\<close>

definition demo_block1_tampered :: block where
  "demo_block1_tampered =
     demo_block1\<lparr>transactions :=
       (transactions demo_block1)[0 := (transactions demo_block1 ! 0)\<lparr>amount := Finite 2000\<rparr>]\<rparr>"

definition demo2_tampered :: blockchain where
  "demo2_tampered = demo2\<lparr>chain := (chain demo2)[1 := demo_block1_tampered]\<rparr>"

text \<open>
  The genesis block of the chains above with every field but the stored hash rewritten.
\<close>

definition demo_genesis_rewritten :: block where
  "demo_genesis_rewritten =
     demo_genesis\<lparr>index := 7, timestamp := NaN,
       transactions := [\<lparr>sender = ''X'', recipient = ''Y'', amount = Finite 5, tx_timestamp = Finite 9\<rparr>],
       nonce := 42\<rparr>"

text \<open>
  The chain after \<^verbatim>\<open>mine_pending_transactions("M")\<close> on the fresh chain \<open>demo0\<close>, whose
  pool is empty (clock readings 2 and 3).
\<close>

definition demo_reward_only :: blockchain where
  "demo_reward_only =
     \<lparr>chain = [demo_genesis,
        \<lparr>index = 1, timestamp = Finite 3,
         transactions =
           [\<lparr>sender = ''Network'', recipient = ''M'', amount = Finite 10, tx_timestamp = Finite 2\<rparr>],
         previous_hash = CHR ''0'' # CHR ''a'' # replicate 62 CHR ''b'', nonce = 0,
         hash = CHR ''0'' # replicate 4 CHR ''a'' @ replicate 59 CHR ''b''\<rparr>],
      difficulty = 1, pending_transactions = []\<rparr>"

text \<open>
  Two dicts that hold the same items, inserted in a different order.
\<close>

fun reordered :: "json \<Rightarrow> json \<Rightarrow> bool" where
  "reordered (JDict its) (JDict kvs) \<longleftrightarrow> mset its = mset kvs"
| "reordered _ _ \<longleftrightarrow> False"

text \<open>
  \<^verbatim>\<open>to_dict\<close> had it inserted the four attributes in the opposite order.
\<close>

definition to_dict_reversed :: "transaction \<Rightarrow> json" where
  "to_dict_reversed t = JDict (rev (items (to_dict t)))"

section \<open>Facts about the digest, the block and the mining loop\<close>

lemma calculate_hash_hash_update: "calculate_hash H (b\<lparr>hash := h\<rparr>) = calculate_hash H b"
  by (simp add: calculate_hash_def block_content_def)

lemma Block_consistent: "hash (Block H i txs prev now) = calculate_hash H (Block H i txs prev now)"
  by (simp add: Block_def Let_def calculate_hash_def block_content_def)

lemma Block_fields:
  "index (Block H i txs prev now) = i"
  "timestamp (Block H i txs prev now) = now"
  "transactions (Block H i txs prev now) = txs"
  "previous_hash (Block H i txs prev now) = prev"
  "nonce (Block H i txs prev now) = 0"
  by (simp_all add: Block_def Let_def)

lemma mine_step_fields:
  "index (mine_step H b) = index b"
  "timestamp (mine_step H b) = timestamp b"
  "transactions (mine_step H b) = transactions b"
  "previous_hash (mine_step H b) = previous_hash b"
  "nonce (mine_step H b) = nonce b + 1"
  by (simp_all add: mine_step_def Let_def)

lemma mine_step_consistent: "hash (mine_step H b) = calculate_hash H (mine_step H b)"
  by (simp add: mine_step_def Let_def calculate_hash_hash_update)

lemma mine_block_Some:
  assumes "mine_block H d b = Some b'"
  shows "py_prefix d (hash b') = py_repeat CHR ''0'' d
       \<and> index b' = index b \<and> timestamp b' = timestamp b
       \<and> transactions b' = transactions b \<and> previous_hash b' = previous_hash b
       \<and> nonce b \<le> nonce b'
       \<and> (hash b = calculate_hash H b \<longrightarrow> hash b' = calculate_hash H b')"
  using assms
proof (induct rule: mine_block.raw_induct[rotated 1, consumes 1])
  case (1 mine_block H d b b')
  show ?case
  proof (cases "py_prefix d (hash b) \<noteq> py_repeat CHR ''0'' d")
    case True
    with 1(2) have "mine_block H d (mine_step H b) = Some b'" by simp
    from 1(1)[OF this] show ?thesis
      by (auto simp: mine_step_fields mine_step_consistent)
  next
    case False
    with 1(2) show ?thesis by simp
  qed
qed

lemma mine_block_target:
  "mine_block H d b = Some b' \<Longrightarrow> py_prefix d (hash b') = py_repeat CHR ''0'' d"
  by (simp add: mine_block_Some)

lemma mine_block_consistent:
  "mine_block H d b = Some b' \<Longrightarrow> hash b = calculate_hash H b \<Longrightarrow> hash b' = calculate_hash H b'"
  using mine_block_Some by blast

lemma mine_block_fields:
  assumes "mine_block H d b = Some b'"
  shows "index b' = index b" "timestamp b' = timestamp b"
    "transactions b' = transactions b" "previous_hash b' = previous_hash b"
  using mine_block_Some[OF assms] by simp_all

lemma py_target_iff:
  "0 \<le> d \<Longrightarrow> (py_prefix d h = py_repeat CHR ''0'' d)
     = (take (nat d) h = replicate (nat d) CHR ''0'')"
  by (simp add: py_prefix_def py_repeat_def)

lemma py_target_take:
  "py_prefix d h = py_repeat CHR ''0'' d \<Longrightarrow> take (nat d) h = replicate (nat d) CHR ''0''"
  by (cases "0 \<le> d") (simp_all add: py_prefix_def py_repeat_def)

section \<open>Facts about the validation loop\<close>

lemma check_blocks_Cons:
  "check_blocks H d ch (j # js) =
     (if passes H d ch j then check_blocks H d ch js else finding H d ch j)"
  by (simp add: passes_def finding_def Let_def)

lemma finding_not_valid: "finding H d ch i \<noteq> ChainValid"
  by (simp add: finding_def)

lemma check_blocks_valid_iff:
  "check_blocks H d ch js = ChainValid \<longleftrightarrow> (\<forall>i\<in>set js. passes H d ch i)"
  by (induction js) (simp_all add: check_blocks_Cons finding_not_valid del: check_blocks.simps(2))

lemma check_blocks_first_failure:
  "\<forall>j\<in>set js. passes H d ch j \<Longrightarrow> \<not> passes H d ch i
     \<Longrightarrow> check_blocks H d ch (js @ i # ks) = finding H d ch i"
  by (induction js) (simp_all add: check_blocks_Cons del: check_blocks.simps(2))

lemma upt_split: "1 \<le> i \<Longrightarrow> i < n \<Longrightarrow> [1..<n] = [1..<i] @ i # [Suc i..<n]"
  by (metis less_imp_le_nat upt_add_eq_append upt_conv_Cons le_Suc_ex)

lemma report_first_failure:
  assumes "1 \<le> i" "i < length ch"
    and "\<forall>j\<in>{1..<i}. passes H d ch j" "\<not> passes H d ch i"
  shows "check_blocks H d ch [1..<length ch] = finding H d ch i"
proof -
  have "[1..<length ch] = [1..<i] @ i # [Suc i..<length ch]"
    using assms(1,2) by (rule upt_split)
  moreover have "\<forall>j\<in>set [1..<i]. passes H d ch j" using assms(3) by simp
  ultimately show ?thesis using assms(4) by (simp add: check_blocks_first_failure)
qed

lemma passes_prefix:
  "j \<le> i \<Longrightarrow> i < length ch \<Longrightarrow> passes H d (take (Suc i) ch @ rest) j = passes H d ch j"
  by (auto simp: passes_def nth_append)

lemma finding_prefix:
  "i < length ch \<Longrightarrow> finding H d (take (Suc i) ch @ rest) i = finding H d ch i"
  by (auto simp: finding_def nth_append)

lemma passes_append:
  "i < length ch \<Longrightarrow> passes H d (ch @ bs) i = passes H d ch i"
  by (auto simp: passes_def nth_append)

lemma is_chain_valid_iff_report:
  "is_chain_valid H c \<longleftrightarrow> is_chain_valid_report H c = ChainValid"
  by (simp add: is_chain_valid_def split: report.splits)

lemma is_chain_valid_iff_passes:
  "is_chain_valid H c \<longleftrightarrow> (\<forall>i\<in>{1..<length (chain c)}. passes H (difficulty c) (chain c) i)"
  by (simp add: is_chain_valid_iff_report is_chain_valid_report_def check_blocks_valid_iff)

lemma passes_three_checks:
  "0 \<le> difficulty c \<Longrightarrow> passes H (difficulty c) (chain c) i = three_checks H c i"
  by (simp add: passes_def three_checks_def py_target_iff)

section \<open>Facts about the sorted serialisation\<close>

lemma sort_keys_to_dict:
  "sort_keys (to_dict t) = JDict
     [(''amount'', JFloat (amount t)), (''recipient'', JStr (recipient t)),
      (''sender'', JStr (sender t)), (''timestamp'', JFloat (tx_timestamp t))]"
  by (simp add: to_dict_def)

lemma sort_keys_block_content:
  "sort_keys (block_content b) = JDict
     [(''index'', JInt (index b)), (''nonce'', JInt (nonce b)),
      (''previous_hash'', JStr (previous_hash b)), (''timestamp'', JFloat (timestamp b)),
      (''transactions'', JList (map (\<lambda>t. sort_keys (to_dict t)) (transactions b)))]"
  by (simp add: block_content_def)

lemma sorted_to_dict_inj: "sort_keys (to_dict t) = sort_keys (to_dict t') \<Longrightarrow> t = t'"
  by (simp add: sort_keys_to_dict)

lemma sorted_txs_inj:
  "map (\<lambda>t. sort_keys (to_dict t)) ts = map (\<lambda>t. sort_keys (to_dict t)) ts' \<Longrightarrow> ts = ts'"
  by (rule map_injective) (auto simp: inj_on_def dest: sorted_to_dict_inj)

lemma sorted_content_inj:
  assumes "sort_keys (block_content b) = sort_keys (block_content b')" "hash b = hash b'"
  shows "b = (b' :: block)"
  using assms by (auto simp: sort_keys_block_content dest: sorted_txs_inj)

section \<open>The invariant is established and kept\<close>

lemma chain_inv_init:
  assumes "IndianBlockchain H dopt now = Some c"
  shows "chain_inv H c"
proof -
  let ?d = "case dopt of None \<Rightarrow> 4 | Some d \<Rightarrow> d"
  from assms obtain g where g: "mine_block H ?d (Block H 0 [] (py_repeat CHR ''0'' 64) now) = Some g"
    and c: "c = \<lparr>chain = [g], difficulty = ?d, pending_transactions = []\<rparr>"
    by (auto simp: IndianBlockchain_def create_genesis_block_def split: option.splits)
  from mine_block_fields(4)[OF g] have "previous_hash g = replicate 64 CHR ''0''"
    by (simp add: Block_fields py_repeat_def)
  with c show ?thesis by (simp add: chain_inv_def)
qed

lemma chain_inv_add: "chain_inv H c \<Longrightarrow> chain_inv H (add_transaction c s r a now)"
  by (simp add: chain_inv_def add_transaction_def)

lemma mine_pending_Inr:
  assumes "mine_pending_transactions H c m now_tx now_block = Some (Inr c')"
  shows "chain c \<noteq> [] \<and> (\<exists>b. mine_block H (difficulty c)
            (Block H (int (length (chain c)))
               (pending_transactions c @ [Transaction ''Network'' m (Finite 10) now_tx])
               (hash (last (chain c))) now_block) = Some b
          \<and> c' = c\<lparr>chain := chain c @ [b], pending_transactions := []\<rparr>)"
  using assms
  by (auto simp: mine_pending_transactions_def add_transaction_def get_latest_block_def Let_def
           split: option.splits if_splits)

lemma chain_inv_mine:
  assumes inv: "chain_inv H c"
    and run: "mine_pending_transactions H c m now_tx now_block = Some (Inr c')"
  shows "chain_inv H c'"
proof -
  let ?B = "Block H (int (length (chain c)))
               (pending_transactions c @ [Transaction ''Network'' m (Finite 10) now_tx])
               (hash (last (chain c))) now_block"
  from mine_pending_Inr[OF run] obtain b where ne: "chain c \<noteq> []"
    and b: "mine_block H (difficulty c) ?B = Some b"
    and c': "c' = c\<lparr>chain := chain c @ [b], pending_transactions := []\<rparr>" by blast
  let ?n = "length (chain c)"
  have post: "py_prefix (difficulty c) (hash b) = py_repeat CHR ''0'' (difficulty c)"
    "previous_hash b = hash (last (chain c))" "hash b = calculate_hash H b"
    using mine_block_target[OF b] mine_block_fields(4)[OF b]
      mine_block_consistent[OF b Block_consistent]
    by (simp_all add: Block_fields)
  have new: "passes H (difficulty c) (chain c @ [b]) ?n"
    using post ne by (simp add: passes_def nth_append last_conv_nth)
  have old: "\<forall>i\<in>{1..<?n}. passes H (difficulty c) (chain c @ [b]) i"
    using inv by (simp add: chain_inv_def passes_append)
  have "\<forall>i\<in>{1..<Suc ?n}. passes H (difficulty c) (chain c @ [b]) i"
    using new old by (auto simp: less_Suc_eq)
  with inv ne show ?thesis by (simp add: chain_inv_def c' nth_append)
qed

lemma reachable_inv: "reachable H c \<Longrightarrow> chain_inv H c"
  by (induction rule: reachable.induct) (auto intro: chain_inv_init chain_inv_add chain_inv_mine)

section \<open>The concrete chains are built by the operations\<close>

lemma demo0_built: "IndianBlockchain demo_digest (Some 1) (Finite 0) = Some demo0"
  by code_simp

lemma demo1_built:
  "mine_pending_transactions demo_digest
     (add_transaction demo0 ''A'' ''B'' (Finite 100) (Finite 1)) ''M'' (Finite 2) (Finite 3)
   = Some (Inr demo1)"
  by code_simp

lemma demo2_built:
  "mine_pending_transactions demo_digest
     (add_transaction demo1 ''B'' ''C'' (Finite 50) (Finite 4)) ''M'' (Finite 5) (Finite 6)
   = Some (Inr demo2)"
  by code_simp

lemma demo0_reachable: "reachable demo_digest demo0"
  by (rule reachable.init[OF demo0_built])

lemma demo1_reachable: "reachable demo_digest demo1"
  by (rule reachable.mine[OF reachable.add[OF demo0_reachable] demo1_built])

lemma demo2_reachable: "reachable demo_digest demo2"
  by (rule reachable.mine[OF reachable.add[OF demo1_reachable] demo2_built])

lemma demo_digest_first: "n < 4 \<Longrightarrow> ''0123'' ! n \<in> set ''0123456789abcdef''"
  by (auto simp: less_Suc_eq numeral_eq_Suc)

lemma demo_digest_hex:
  "length (demo_digest v) = 64 \<and> set (demo_digest v) \<subseteq> set ''0123456789abcdef''"
proof -
  have "weight v mod 4 < 4" by simp
  then have "''0123'' ! (weight v mod 4) \<in> set ''0123456789abcdef''"
    by (rule demo_digest_first)
  moreover have "weight v mod 7 \<le> 63"
    by (rule order_trans[OF less_imp_le[OF mod_less_divisor]]) simp_all
  ultimately show ?thesis by (auto simp: demo_digest_def Let_def)
qed

section \<open>The mining loop as an iteration of its body\<close>

lemma mine_block_steps:
  assumes "mine_block H d b = Some b'"
  shows "\<exists>k. b' = (mine_step H ^^ k) b
           \<and> (\<forall>j<k. py_prefix d (hash ((mine_step H ^^ j) b)) \<noteq> py_repeat CHR ''0'' d)"
  using assms
proof (induct rule: mine_block.raw_induct[rotated 1, consumes 1])
  case (1 mine_block H d b b')
  show ?case
  proof (cases "py_prefix d (hash b) \<noteq> py_repeat CHR ''0'' d")
    case True
    with 1(2) have "mine_block H d (mine_step H b) = Some b'" by simp
    from 1(1)[OF this] obtain k where k: "b' = (mine_step H ^^ k) (mine_step H b)"
      and fails: "\<forall>j<k. py_prefix d (hash ((mine_step H ^^ j) (mine_step H b))) \<noteq> py_repeat CHR ''0'' d"
      by blast
    have "b' = (mine_step H ^^ Suc k) b" using k by (simp add: funpow_swap1)
    moreover have "\<forall>j<Suc k. py_prefix d (hash ((mine_step H ^^ j) b)) \<noteq> py_repeat CHR ''0'' d"
    proof (intro allI impI)
      fix j assume "j < Suc k"
      then show "py_prefix d (hash ((mine_step H ^^ j) b)) \<noteq> py_repeat CHR ''0'' d"
        using True fails by (cases j) (simp_all add: funpow_swap1)
    qed
    ultimately show ?thesis by blast
  next
    case False
    with 1(2) have "b' = (mine_step H ^^ 0) b" by simp
    then show ?thesis by blast
  qed
qed

lemma mine_block_terminates:
  "py_prefix d (hash ((mine_step H ^^ k) b)) = py_repeat CHR ''0'' d
     \<Longrightarrow> \<exists>b'. mine_block H d b = Some b'"
proof (induction k arbitrary: b)
  case 0
  then show ?case by (simp add: mine_block.simps)
next
  case (Suc k)
  show ?case
  proof (cases "py_prefix d (hash b) = py_repeat CHR ''0'' d")
    case True
    then show ?thesis by (simp add: mine_block.simps)
  next
    case False
    from Suc.prems have "py_prefix d (hash ((mine_step H ^^ k) (mine_step H b))) = py_repeat CHR ''0'' d"
      by (simp add: funpow_swap1)
    from Suc.IH[OF this] obtain b' where "mine_block H d (mine_step H b) = Some b'" by blast
    with False show ?thesis by (subst mine_block.simps) simp
  qed
qed

lemma funpow_step_consistent:
  "0 < k \<Longrightarrow> hash ((mine_step H ^^ k) b) = calculate_hash H ((mine_step H ^^ k) b)"
  by (cases k) (simp_all add: mine_step_consistent)

lemma check_blocks_same:
  "\<forall>i\<in>set js. ch ! i = ch' ! i \<and> hash (ch ! (i - 1)) = hash (ch' ! (i - 1))
     \<Longrightarrow> check_blocks H d ch js = check_blocks H d ch' js"
  by (induction js) (simp_all add: Let_def)

lemma passes_update_before:
  "j < i \<Longrightarrow> passes H d (ch[i := b]) j = passes H d ch j"
  by (simp add: passes_def)

section \<open>Sorting by key forgets the insertion order\<close>

lemma filter_key_distinct:
  "distinct (map k zs) \<Longrightarrow> x \<in> set zs \<Longrightarrow> filter (\<lambda>y. k x = k y) zs = [x]"
proof (induction zs)
  case Nil
  then show ?case by simp
next
  case (Cons z zs)
  show ?case
  proof (cases "x = z")
    case True
    with Cons.prems have "\<forall>y\<in>set zs. k x \<noteq> k y" by auto
    then have "filter (\<lambda>y. k x = k y) zs = []" by (simp add: filter_empty_conv)
    with True show ?thesis by simp
  next
    case False
    from False Cons.prems(2) have xin: "x \<in> set zs" by simp
    from Cons.prems(1) have "k z \<notin> k ` set zs" by simp
    with xin have "k x \<noteq> k z" by (metis imageI)
    with xin Cons show ?thesis by simp
  qed
qed

lemma sort_key_mset_distinct:
  assumes "mset xs = mset ys" "distinct (map k ys)"
  shows "sort_key k xs = sort_key k ys"
proof (rule properties_for_sort_key)
  show "mset (sort_key k ys) = mset xs" using assms(1) by simp
  show "sorted (map k (sort_key k ys))" by simp
  have "mset (map k xs) = mset (map k ys)" using assms(1) by (metis mset_map)
  then have dx: "distinct (map k xs)" using assms(2) by (metis mset_eq_imp_distinct_iff)
  have ds: "distinct (map k (sort_key k ys))" using assms(2)
    by (metis distinct_map distinct_sort set_sort)
  fix x assume x: "x \<in> set (sort_key k ys)"
  then have "x \<in> set xs" using assms(1) by (metis mset_eq_setD set_sort)
  then have "filter (\<lambda>y. k x = k y) xs = [x]" using dx by (rule filter_key_distinct[rotated])
  moreover have "filter (\<lambda>y. k x = k y) (sort_key k ys) = [x]"
    using ds x by (rule filter_key_distinct)
  ultimately show "filter (\<lambda>y. k x = k y) (sort_key k ys) = filter (\<lambda>y. k x = k y) xs" by simp
qed

lemma sort_keys_reordered:
  assumes "reordered v (JDict kvs)" "distinct (map fst kvs)"
  shows "sort_keys v = sort_keys (JDict kvs)"
proof -
  from assms(1) obtain its where v: "v = JDict its" and m: "mset its = mset kvs"
    by (cases v) auto
  let ?f = "map_prod id sort_keys"
  have "mset (map ?f its) = mset (map ?f kvs)" using m by (metis mset_map)
  moreover have "distinct (map fst (map ?f kvs))" using assms(2) by (simp add: comp_def)
  ultimately have "sort_key fst (map ?f its) = sort_key fst (map ?f kvs)"
    by (rule sort_key_mset_distinct)
  then show ?thesis by (simp add: v)
qed

lemma sort_keys_reordered_to_dict:
  "reordered w (to_dict t) \<Longrightarrow> sort_keys w = sort_keys (to_dict t)"
  unfolding to_dict_def by (rule sort_keys_reordered) simp_all

section \<open>The claims\<close>

text \<open>
  C7.  A chain that the constructor has returned, with configured difficulty \<open>d\<close>, holds
  one block, the genesis block: its index is 0, its transaction list is empty, its
  previous hash is 64 characters \<open>0\<close>, and the first \<open>d\<close> characters of its stored hash
  are all \<open>0\<close>.  The difficulty is the argument, or 4 when it is left out.  The
  constructor does return whenever some number \<open>k\<close> of rounds of the mining loop brings
  the hash of the genesis block to the target.
\<close>

theorem genesis_block_invariant:
  "(IndianBlockchain H dopt now = Some c \<longrightarrow>
      length (chain c) = 1
    \<and> index (chain c ! 0) = 0
    \<and> transactions (chain c ! 0) = []
    \<and> previous_hash (chain c ! 0) = replicate 64 CHR ''0''
    \<and> difficulty c = (case dopt of None \<Rightarrow> 4 | Some d \<Rightarrow> d)
    \<and> take (nat (difficulty c)) (hash (chain c ! 0)) = replicate (nat (difficulty c)) CHR ''0'')
   \<and> (d = (case dopt of None \<Rightarrow> 4 | Some d \<Rightarrow> d)
      \<and> py_prefix d (hash ((mine_step H ^^ k) (Block H 0 [] (replicate 64 CHR ''0'') now)))
          = py_repeat CHR ''0'' d
      \<longrightarrow> (\<exists>c. IndianBlockchain H dopt now = Some c))"
proof (intro conjI impI)
  assume built: "IndianBlockchain H dopt now = Some c"
  let ?d = "case dopt of None \<Rightarrow> 4 | Some d \<Rightarrow> d"
  from built obtain g where g: "mine_block H ?d (Block H 0 [] (py_repeat CHR ''0'' 64) now) = Some g"
    and c: "c = \<lparr>chain = [g], difficulty = ?d, pending_transactions = []\<rparr>"
    by (auto simp: IndianBlockchain_def create_genesis_block_def split: option.splits)
  have "index g = 0" "transactions g = []" "previous_hash g = replicate 64 CHR ''0''"
    using mine_block_fields[OF g] by (simp_all add: Block_fields py_repeat_def)
  moreover have "take (nat ?d) (hash g) = replicate (nat ?d) CHR ''0''"
    by (rule py_target_take[OF mine_block_target[OF g]])
  ultimately show "length (chain c) = 1" "index (chain c ! 0) = 0" "transactions (chain c ! 0) = []"
    "previous_hash (chain c ! 0) = replicate 64 CHR ''0''"
    "difficulty c = ?d"
    "take (nat (difficulty c)) (hash (chain c ! 0)) = replicate (nat (difficulty c)) CHR ''0''"
    by (simp_all add: c)
next
  assume a: "d = (case dopt of None \<Rightarrow> 4 | Some d \<Rightarrow> d)
      \<and> py_prefix d (hash ((mine_step H ^^ k) (Block H 0 [] (replicate 64 CHR ''0'') now)))
          = py_repeat CHR ''0'' d"
  then obtain g where "mine_block H d (Block H 0 [] (replicate 64 CHR ''0'') now) = Some g"
    using mine_block_terminates by blast
  with a show "\<exists>c. IndianBlockchain H dopt now = Some c"
    by (simp add: IndianBlockchain_def create_genesis_block_def py_repeat_def)
qed

theorem genesis_block_invariant_witness:
  "IndianBlockchain demo_digest (Some 1) (Finite 0) = Some demo0
   \<and> length (chain demo0) = 1 \<and> index (chain demo0 ! 0) = 0
   \<and> transactions (chain demo0 ! 0) = []
   \<and> previous_hash (chain demo0 ! 0) = replicate 64 CHR ''0''
   \<and> difficulty demo0 = 1
   \<and> take 1 (hash (chain demo0 ! 0)) = ''0''
   \<and> (\<exists>c. IndianBlockchain demo_digest (Some 1) (Finite 1) = Some c)"
proof -
  let ?B = "Block demo_digest 0 [] (replicate 64 CHR ''0'') (Finite 1)"
  have "py_prefix 1 (hash (mine_step demo_digest (mine_step demo_digest (mine_step demo_digest ?B))))
          = py_repeat CHR ''0'' 1"
    by code_simp
  then have met: "(1::int) = (case Some 1 of None \<Rightarrow> 4 | Some d \<Rightarrow> d)
      \<and> py_prefix 1 (hash ((mine_step demo_digest ^^ 3) ?B)) = py_repeat CHR ''0'' 1"
    by (simp only: numeral_3_eq_3 funpow.simps comp_def id_apply option.case simp_thms)
  have returns: "\<exists>c. IndianBlockchain demo_digest (Some 1) (Finite 1) = Some c"
    by (rule genesis_block_invariant[where dopt = "Some 1" and d = 1 and k = 3
          and H = demo_digest and now = "Finite 1", THEN conjunct2, rule_format, OF met])
  have "length (chain demo0) = 1
    \<and> index (chain demo0 ! 0) = 0
    \<and> transactions (chain demo0 ! 0) = []
    \<and> previous_hash (chain demo0 ! 0) = replicate 64 CHR ''0''
    \<and> difficulty demo0 = (case Some 1 of None \<Rightarrow> 4 | Some d \<Rightarrow> d)
    \<and> take (nat (difficulty demo0)) (hash (chain demo0 ! 0))
        = replicate (nat (difficulty demo0)) CHR ''0''"
    by (rule genesis_block_invariant[where H = demo_digest and dopt = "Some 1"
          and now = "Finite 0" and c = demo0, THEN conjunct1, rule_format, OF demo0_built])
  then show ?thesis using returns demo0_built by (simp add: demo0_def)
qed

text \<open>
  C3.  When \<^verbatim>\<open>mine_pending_transactions(m)\<close> returns, the pending pool is empty and
  exactly one block has been appended; its transactions are the pool before the call
  followed by one reward transaction with recipient \<open>m\<close>, its index is the length of the
  chain before the call and its previous hash is the hash of the block that was the tip.
\<close>

theorem mine_pending_transactions_post:
  assumes "mine_pending_transactions H c m now_tx now_block = Some (Inr c')"
  shows "pending_transactions c' = []
       \<and> difficulty c' = difficulty c
       \<and> chain c \<noteq> []
       \<and> (\<exists>b reward. chain c' = chain c @ [b]
            \<and> transactions b = pending_transactions c @ [reward]
            \<and> recipient reward = m
            \<and> index b = int (length (chain c))
            \<and> previous_hash b = hash (last (chain c)))"
proof -
  let ?reward = "Transaction ''Network'' m (Finite 10) now_tx"
  from mine_pending_Inr[OF assms] obtain b where ne: "chain c \<noteq> []"
    and b: "mine_block H (difficulty c)
              (Block H (int (length (chain c))) (pending_transactions c @ [?reward])
                 (hash (last (chain c))) now_block) = Some b"
    and c': "c' = c\<lparr>chain := chain c @ [b], pending_transactions := []\<rparr>" by blast
  have "transactions b = pending_transactions c @ [?reward]"
    "index b = int (length (chain c))" "previous_hash b = hash (last (chain c))"
    using mine_block_fields[OF b] by (simp_all add: Block_fields)
  moreover have "recipient ?reward = m" by (simp add: Transaction_def)
  ultimately show ?thesis using ne c' by auto
qed

theorem mine_pending_transactions_post_witness:
  "mine_pending_transactions demo_digest
     (add_transaction demo0 ''A'' ''B'' (Finite 100) (Finite 1)) ''M'' (Finite 2) (Finite 3)
     = Some (Inr demo1)
   \<and> pending_transactions demo1 = []
   \<and> (\<exists>b reward. chain demo1 = chain demo0 @ [b]
        \<and> transactions b = [Transaction ''A'' ''B'' (Finite 100) (Finite 1)] @ [reward]
        \<and> recipient reward = ''M'' \<and> index b = 1
        \<and> previous_hash b = hash demo_genesis)"
  using mine_pending_transactions_post[OF demo1_built] demo1_built
  by (simp add: add_transaction_def demo0_def)

text \<open>
  C4, as amended.  When \<^verbatim>\<open>mine_block(d)\<close> terminates, the first \<open>d\<close> characters of the
  stored hash are all \<open>0\<close>; the stored hash is the hash recomputed from the block's
  fields provided it was so when the call began or the loop ran at least once; and the
  block returned is reached by running the loop body (increment the nonce, recompute the
  hash) some number \<open>k\<close> of times, none of the blocks before it meeting the target.
\<close>

theorem mine_block_post:
  assumes "mine_block H d b = Some b'"
  shows "take (nat d) (hash b') = replicate (nat d) CHR ''0''
       \<and> (hash b = calculate_hash H b \<or> b' \<noteq> b \<longrightarrow> hash b' = calculate_hash H b')
       \<and> (\<exists>k. b' = (mine_step H ^^ k) b
             \<and> (\<forall>j<k. py_prefix d (hash ((mine_step H ^^ j) b)) \<noteq> py_repeat CHR ''0'' d))"
proof -
  have target: "take (nat d) (hash b') = replicate (nat d) CHR ''0''"
    by (rule py_target_take[OF mine_block_target[OF assms]])
  from mine_block_steps[OF assms] obtain k where k: "b' = (mine_step H ^^ k) b"
    and fails: "\<forall>j<k. py_prefix d (hash ((mine_step H ^^ j) b)) \<noteq> py_repeat CHR ''0'' d"
    by blast
  have "hash b' = calculate_hash H b'" if "hash b = calculate_hash H b \<or> b' \<noteq> b"
  proof (cases "k = 0")
    case True
    with k that show ?thesis by simp
  next
    case False
    then show ?thesis using k funpow_step_consistent[of k H b] by simp
  qed
  with target k fails show ?thesis by blast
qed

theorem mine_block_post_witness:
  "mine_block demo_digest 1
     (Block demo_digest 1 (transactions demo_block1) (hash demo_genesis) (Finite 3))
     = Some demo_block1
   \<and> take 1 (hash demo_block1) = ''0''
   \<and> hash demo_block1 = calculate_hash demo_digest demo_block1
   \<and> nonce demo_block1 = 1"
proof -
  have run: "mine_block demo_digest 1
     (Block demo_digest 1 (transactions demo_block1) (hash demo_genesis) (Finite 3))
     = Some demo_block1"
    by code_simp
  have "demo_block1 \<noteq> Block demo_digest 1 (transactions demo_block1) (hash demo_genesis) (Finite 3)"
    by code_simp
  with mine_block_post[OF run] have "take (nat 1) (hash demo_block1) = replicate (nat 1) CHR ''0''"
    and "hash demo_block1 = calculate_hash demo_digest demo_block1" by blast+
  moreover have "nonce demo_block1 = 1" by (simp add: demo_block1_def)
  ultimately show ?thesis using run by simp
qed

text \<open>
  C4 as stated fails on a block whose stored hash is stale but already meets the target
  (block 1 of the chain above after the tampering of the demonstration): the loop body
  never runs, and the stored hash is not the recomputed one.
\<close>

theorem mine_block_stale_counterexample:
  "mine_block demo_digest 1 demo_block1_tampered = Some demo_block1_tampered
   \<and> take 1 (hash demo_block1_tampered) = ''0''
   \<and> hash demo_block1_tampered \<noteq> calculate_hash demo_digest demo_block1_tampered"
  by code_simp

text \<open>
  C5, as amended.  Constructing a transaction succeeds for every amount, finite or
  not, and stamps the clock reading; \<^verbatim>\<open>add_transaction\<close> appends it to the pending pool
  and changes nothing else.
\<close>

theorem transaction_any_amount:
  "Transaction s r a now = \<lparr>sender = s, recipient = r, amount = a, tx_timestamp = now\<rparr>
   \<and> add_transaction c s r a now =
       c\<lparr>pending_transactions := pending_transactions c @ [Transaction s r a now]\<rparr>
   \<and> amount (last (pending_transactions (add_transaction c s r a now))) = a
   \<and> tx_timestamp (last (pending_transactions (add_transaction c s r a now))) = now"
  by (simp add: Transaction_def add_transaction_def)

text \<open>
  C5 as stated fails: amounts that are not finite are accepted, by the constructor and
  by \<^verbatim>\<open>add_transaction\<close>.
\<close>

theorem transaction_nan_counterexample:
  "\<not> is_finite NaN \<and> \<not> is_finite PosInf
   \<and> amount (Transaction ''A'' ''B'' NaN (Finite 0)) = NaN
   \<and> pending_transactions (add_transaction demo0 ''A'' ''B'' PosInf (Finite 1))
       = [\<lparr>sender = ''A'', recipient = ''B'', amount = PosInf, tx_timestamp = Finite 1\<rparr>]"
  by (simp add: Transaction_def add_transaction_def demo0_def)

text \<open>
  C9.  \<^verbatim>\<open>is_chain_valid\<close> returns true on every chain of length 0 or 1, and on any chain
  its report and result stay the same when the genesis block is replaced by any block
  with the same stored hash (so rewriting its transactions, timestamp, nonce or index
  goes unnoticed).
\<close>

theorem genesis_not_checked:
  "(length (chain c) \<le> 1 \<longrightarrow> is_chain_valid H c)
   \<and> (chain c \<noteq> [] \<and> hash g' = hash (chain c ! 0) \<longrightarrow>
        is_chain_valid_report H (c\<lparr>chain := (chain c)[0 := g']\<rparr>) = is_chain_valid_report H c
      \<and> is_chain_valid H (c\<lparr>chain := (chain c)[0 := g']\<rparr>) = is_chain_valid H c)"
proof (intro conjI impI)
  assume "length (chain c) \<le> 1"
  then have e: "[1..<length (chain c)] = []" by simp
  show "is_chain_valid H c"
    unfolding is_chain_valid_iff_report is_chain_valid_report_def e by simp
next
  assume a: "chain c \<noteq> [] \<and> hash g' = hash (chain c ! 0)"
  have "\<forall>i\<in>set [1..<length (chain c)].
          (chain c)[0 := g'] ! i = chain c ! i
        \<and> hash ((chain c)[0 := g'] ! (i - 1)) = hash (chain c ! (i - 1))"
    using a by (auto simp: nth_list_update)
  then have "check_blocks H (difficulty c) ((chain c)[0 := g']) [1..<length (chain c)]
           = check_blocks H (difficulty c) (chain c) [1..<length (chain c)]"
    by (rule check_blocks_same)
  then show r: "is_chain_valid_report H (c\<lparr>chain := (chain c)[0 := g']\<rparr>) = is_chain_valid_report H c"
    by (simp add: is_chain_valid_report_def)
  show "is_chain_valid H (c\<lparr>chain := (chain c)[0 := g']\<rparr>) = is_chain_valid H c"
    by (simp add: is_chain_valid_def r)
qed

theorem genesis_not_checked_witness:
  "hash demo_genesis_rewritten \<noteq> calculate_hash demo_digest demo_genesis_rewritten
   \<and> is_chain_valid demo_digest (demo2\<lparr>chain := (chain demo2)[0 := demo_genesis_rewritten]\<rparr>)
   \<and> is_chain_valid demo_digest
        \<lparr>chain = [demo_genesis_rewritten], difficulty = 4, pending_transactions = []\<rparr>
   \<and> is_chain_valid demo_digest \<lparr>chain = [], difficulty = 4, pending_transactions = []\<rparr>"
proof -
  have stale: "hash demo_genesis_rewritten \<noteq> calculate_hash demo_digest demo_genesis_rewritten"
    by code_simp
  have before: "is_chain_valid demo_digest demo2" by code_simp
  have pre: "chain demo2 \<noteq> [] \<and> hash demo_genesis_rewritten = hash (chain demo2 ! 0)"
    by (simp add: demo2_def demo_genesis_rewritten_def)
  have "is_chain_valid demo_digest (demo2\<lparr>chain := (chain demo2)[0 := demo_genesis_rewritten]\<rparr>)"
    using genesis_not_checked[where c = demo2 and g' = demo_genesis_rewritten and H = demo_digest] pre before by blast
  moreover have "is_chain_valid demo_digest
        \<lparr>chain = [demo_genesis_rewritten], difficulty = 4, pending_transactions = []\<rparr>"
    using genesis_not_checked[where c = "\<lparr>chain = [demo_genesis_rewritten], difficulty = 4, pending_transactions = []\<rparr>" and H = demo_digest]
    by simp
  moreover have "is_chain_valid demo_digest \<lparr>chain = [], difficulty = 4, pending_transactions = []\<rparr>"
    using genesis_not_checked[where c = "\<lparr>chain = [], difficulty = 4, pending_transactions = []\<rparr>" and H = demo_digest]
    by simp
  ultimately show ?thesis using stale by blast
qed

text \<open>
  C10.  On a chain with at least the genesis block and an empty pool,
  \<^verbatim>\<open>mine_pending_transactions(m)\<close> raises nothing and returns exactly when the mining of
  the new block ends; the appended block then holds one transaction, the reward with
  sender \<open>Network\<close>, recipient \<open>m\<close> and amount 10.0.  Leaving the difficulty out at
  construction is the same as passing 4.
\<close>

theorem mine_pending_empty_pool:
  "(chain c \<noteq> [] \<and> pending_transactions c = [] \<longrightarrow>
      mine_pending_transactions H c m now_tx now_block =
        map_option (\<lambda>b. Inr (c\<lparr>chain := chain c @ [b], pending_transactions := []\<rparr>))
          (mine_block H (difficulty c)
             (Block H (int (length (chain c)))
                [\<lparr>sender = ''Network'', recipient = m, amount = Finite 10, tx_timestamp = now_tx\<rparr>]
                (hash (last (chain c))) now_block)))
   \<and> (pending_transactions c = []
        \<and> mine_pending_transactions H c m now_tx now_block = Some (Inr c') \<longrightarrow>
      transactions (last (chain c')) =
        [\<lparr>sender = ''Network'', recipient = m, amount = Finite 10, tx_timestamp = now_tx\<rparr>]
      \<and> length (chain c') = Suc (length (chain c)))
   \<and> IndianBlockchain H None now = IndianBlockchain H (Some 4) now
   \<and> (IndianBlockchain H None now = Some c0 \<longrightarrow> difficulty c0 = 4)"
proof (intro conjI impI)
  assume "chain c \<noteq> [] \<and> pending_transactions c = []"
  then show "mine_pending_transactions H c m now_tx now_block =
        map_option (\<lambda>b. Inr (c\<lparr>chain := chain c @ [b], pending_transactions := []\<rparr>))
          (mine_block H (difficulty c)
             (Block H (int (length (chain c)))
                [\<lparr>sender = ''Network'', recipient = m, amount = Finite 10, tx_timestamp = now_tx\<rparr>]
                (hash (last (chain c))) now_block))"
    by (simp add: mine_pending_transactions_def add_transaction_def get_latest_block_def
          Transaction_def Let_def split: option.splits)
next
  assume a: "pending_transactions c = []
        \<and> mine_pending_transactions H c m now_tx now_block = Some (Inr c')"
  from mine_pending_Inr[of H c m now_tx now_block c'] a obtain b where
    b: "mine_block H (difficulty c)
          (Block H (int (length (chain c))) [Transaction ''Network'' m (Finite 10) now_tx]
             (hash (last (chain c))) now_block) = Some b"
    and c': "c' = c\<lparr>chain := chain c @ [b], pending_transactions := []\<rparr>" by auto
  from mine_block_fields(3)[OF b]
  show "transactions (last (chain c')) =
        [\<lparr>sender = ''Network'', recipient = m, amount = Finite 10, tx_timestamp = now_tx\<rparr>]"
    by (simp add: c' Block_fields Transaction_def)
  show "length (chain c') = Suc (length (chain c))" by (simp add: c')
next
  show "IndianBlockchain H None now = IndianBlockchain H (Some 4) now"
    by (simp add: IndianBlockchain_def)
next
  assume "IndianBlockchain H None now = Some c0"
  then show "difficulty c0 = 4"
    by (auto simp: IndianBlockchain_def create_genesis_block_def split: option.splits)
qed

theorem mine_pending_empty_pool_witness:
  "pending_transactions demo0 = [] \<and> chain demo0 \<noteq> []
   \<and> mine_pending_transactions demo_digest demo0 ''M'' (Finite 2) (Finite 3)
       = Some (Inr demo_reward_only)
   \<and> transactions (last (chain demo_reward_only)) =
       [\<lparr>sender = ''Network'', recipient = ''M'', amount = Finite 10, tx_timestamp = Finite 2\<rparr>]
   \<and> length (chain demo_reward_only) = 2"
proof -
  have pre: "pending_transactions demo0 = []" "chain demo0 \<noteq> []" by (simp_all add: demo0_def)
  have run: "mine_pending_transactions demo_digest demo0 ''M'' (Finite 2) (Finite 3)
       = Some (Inr demo_reward_only)" by code_simp
  from mine_pending_empty_pool[where c = demo0 and H = demo_digest and m = "''M''" and now_tx = "Finite 2"
      and now_block = "Finite 3" and c' = demo_reward_only]
    pre run
  have "transactions (last (chain demo_reward_only)) =
       [\<lparr>sender = ''Network'', recipient = ''M'', amount = Finite 10, tx_timestamp = Finite 2\<rparr>]
      \<and> length (chain demo_reward_only) = Suc (length (chain demo0))" by blast
  then show ?thesis using pre run by (simp add: demo0_def)
qed

text \<open>
  C1.  For a difficulty that is a count of characters, \<^verbatim>\<open>is_chain_valid\<close> returns true
  exactly when the three checks (stored hash recomputed, linkage to the stored hash of
  the block before, leading zeros) pass at every index from 1 to N-1.  When they pass
  below an index \<open>i\<close> and fail at \<open>i\<close>, it returns false, reports index \<open>i\<close> with the
  first check that fails there, and the blocks after \<open>i\<close> play no part in the result:
  any other blocks in their place give the same report.
\<close>

theorem is_chain_valid_three_checks:
  assumes "0 \<le> difficulty c"
  shows "(is_chain_valid H c \<longleftrightarrow> (\<forall>i\<in>{1..<length (chain c)}. three_checks H c i))
       \<and> (\<forall>i\<in>{1..<length (chain c)}.
            (\<forall>j\<in>{1..<i}. three_checks H c j) \<and> \<not> three_checks H c i \<longrightarrow>
              \<not> is_chain_valid H c
            \<and> is_chain_valid_report H c =
                (if hash (chain c ! i) \<noteq> calculate_hash H (chain c ! i) then InvalidHash i
                 else if previous_hash (chain c ! i) \<noteq> hash (chain c ! (i - 1))
                   then InvalidLinkage i
                 else InvalidPoW i)
            \<and> (\<forall>rest. is_chain_valid_report H (c\<lparr>chain := take (Suc i) (chain c) @ rest\<rparr>)
                       = is_chain_valid_report H c))"
proof (intro conjI ballI impI)
  show "is_chain_valid H c \<longleftrightarrow> (\<forall>i\<in>{1..<length (chain c)}. three_checks H c i)"
    by (simp add: is_chain_valid_iff_passes passes_three_checks[OF assms])
next
  fix i
  assume i: "i \<in> {1..<length (chain c)}"
    and first: "(\<forall>j\<in>{1..<i}. three_checks H c j) \<and> \<not> three_checks H c i"
  let ?d = "difficulty c" and ?ch = "chain c"
  from i have i1: "1 \<le> i" and il: "i < length ?ch" by simp_all
  from first have before: "\<forall>j\<in>{1..<i}. passes H ?d ?ch j" and fail: "\<not> passes H ?d ?ch i"
    by (simp_all add: passes_three_checks[OF assms])
  have rep: "is_chain_valid_report H c = finding H ?d ?ch i"
    unfolding is_chain_valid_report_def by (rule report_first_failure[OF i1 il before fail])
  show "\<not> is_chain_valid H c"
    by (simp add: is_chain_valid_iff_report rep finding_not_valid)
  show "is_chain_valid_report H c =
          (if hash (?ch ! i) \<noteq> calculate_hash H (?ch ! i) then InvalidHash i
           else if previous_hash (?ch ! i) \<noteq> hash (?ch ! (i - 1)) then InvalidLinkage i
           else InvalidPoW i)"
    by (simp add: rep finding_def)
  show "\<forall>rest. is_chain_valid_report H (c\<lparr>chain := take (Suc i) ?ch @ rest\<rparr>)
               = is_chain_valid_report H c"
  proof
    fix rest
    let ?ch' = "take (Suc i) ?ch @ rest"
    have il': "i < length ?ch'" using il by simp
    have before': "\<forall>j\<in>{1..<i}. passes H ?d ?ch' j"
      using before il by (simp add: passes_prefix)
    have fail': "\<not> passes H ?d ?ch' i" using fail il by (simp add: passes_prefix)
    have "is_chain_valid_report H (c\<lparr>chain := ?ch'\<rparr>)
            = check_blocks H ?d ?ch' [1..<length ?ch']"
      unfolding is_chain_valid_report_def by simp
    also have "\<dots> = finding H ?d ?ch' i"
      by (rule report_first_failure[OF i1 il' before' fail'])
    also have "\<dots> = finding H ?d ?ch i" using il by (rule finding_prefix)
    also have "\<dots> = is_chain_valid_report H c" by (simp only: rep)
    finally show "is_chain_valid_report H (c\<lparr>chain := ?ch'\<rparr>) = is_chain_valid_report H c" .
  qed
qed

theorem is_chain_valid_three_checks_witness:
  "0 \<le> difficulty demo2 \<and> is_chain_valid demo_digest demo2
   \<and> three_checks demo_digest demo2 1 \<and> three_checks demo_digest demo2 2
   \<and> \<not> three_checks demo_digest demo2_tampered 1
   \<and> \<not> is_chain_valid demo_digest demo2_tampered
   \<and> is_chain_valid_report demo_digest demo2_tampered = InvalidHash 1
   \<and> is_chain_valid_report demo_digest
        (demo2_tampered\<lparr>chain := take 2 (chain demo2_tampered) @ [demo_genesis]\<rparr>) = InvalidHash 1"
proof -
  have d: "0 \<le> difficulty demo2" "0 \<le> difficulty demo2_tampered"
    by (simp_all add: demo2_def demo2_tampered_def)
  have ok: "three_checks demo_digest demo2 1" "three_checks demo_digest demo2 2" by code_simp+
  have all: "\<forall>i\<in>{1..<length (chain demo2)}. three_checks demo_digest demo2 i" by code_simp
  have valid: "is_chain_valid demo_digest demo2"
    using is_chain_valid_three_checks[OF d(1), of demo_digest, THEN conjunct1] all by blast
  have bad: "\<not> three_checks demo_digest demo2_tampered 1" by code_simp
  have mism: "hash (chain demo2_tampered ! 1) \<noteq> calculate_hash demo_digest (chain demo2_tampered ! 1)"
    by code_simp
  have in1: "1 \<in> {1..<length (chain demo2_tampered)}" by (simp add: demo2_tampered_def demo2_def)
  have pre: "(\<forall>j\<in>{1..<1}. three_checks demo_digest demo2_tampered j)
       \<and> \<not> three_checks demo_digest demo2_tampered 1" using bad by simp
  from is_chain_valid_three_checks[OF d(2), of demo_digest, THEN conjunct2, THEN bspec, OF in1] pre
  have "\<not> is_chain_valid demo_digest demo2_tampered
      \<and> is_chain_valid_report demo_digest demo2_tampered =
          (if hash (chain demo2_tampered ! 1) \<noteq> calculate_hash demo_digest (chain demo2_tampered ! 1)
           then InvalidHash 1
           else if previous_hash (chain demo2_tampered ! 1) \<noteq> hash (chain demo2_tampered ! (1 - 1))
             then InvalidLinkage 1 else InvalidPoW 1)
      \<and> (\<forall>rest. is_chain_valid_report demo_digest
                   (demo2_tampered\<lparr>chain := take (Suc 1) (chain demo2_tampered) @ rest\<rparr>)
                 = is_chain_valid_report demo_digest demo2_tampered)"
    by blast
  with mism have "\<not> is_chain_valid demo_digest demo2_tampered"
    "is_chain_valid_report demo_digest demo2_tampered = InvalidHash 1"
    "is_chain_valid_report demo_digest
        (demo2_tampered\<lparr>chain := take (Suc 1) (chain demo2_tampered) @ [demo_genesis]\<rparr>) = InvalidHash 1"
    by simp_all
  then show ?thesis using d ok valid bad by (simp add: numeral_2_eq_2)
qed

text \<open>
  C6.  Every chain built by construction followed by any sequence of
  \<^verbatim>\<open>add_transaction\<close> and \<^verbatim>\<open>mine_pending_transactions\<close> calls is linked: the previous
  hash of block 0 is 64 characters \<open>0\<close>, the previous hash of every later block is the
  stored hash of the block before it, and \<^verbatim>\<open>is_chain_valid\<close> returns true.
\<close>

theorem reachable_linked_valid:
  assumes "reachable H c"
  shows "chain c \<noteq> []
       \<and> previous_hash (chain c ! 0) = replicate 64 CHR ''0''
       \<and> (\<forall>i. 0 < i \<and> i < length (chain c) \<longrightarrow>
             previous_hash (chain c ! i) = hash (chain c ! (i - 1)))
       \<and> is_chain_valid H c"
proof -
  from reachable_inv[OF assms] have inv: "chain_inv H c" .
  then have "\<forall>i\<in>{1..<length (chain c)}. passes H (difficulty c) (chain c) i"
    by (simp add: chain_inv_def)
  moreover from this have "\<forall>i. 0 < i \<and> i < length (chain c) \<longrightarrow>
             previous_hash (chain c ! i) = hash (chain c ! (i - 1))"
    by (auto simp: passes_def)
  ultimately show ?thesis using inv
    by (simp add: chain_inv_def is_chain_valid_iff_passes)
qed

theorem reachable_linked_valid_witness:
  "reachable demo_digest demo2
   \<and> previous_hash (chain demo2 ! 0) = replicate 64 CHR ''0''
   \<and> previous_hash (chain demo2 ! 1) = hash (chain demo2 ! 0)
   \<and> previous_hash (chain demo2 ! 2) = hash (chain demo2 ! 1)
   \<and> is_chain_valid demo_digest demo2"
proof -
  have len: "length (chain demo2) = 3" by (simp add: demo2_def)
  from reachable_linked_valid[OF demo2_reachable]
  have "previous_hash (chain demo2 ! 0) = replicate 64 CHR ''0''"
    and link: "\<forall>i. 0 < i \<and> i < length (chain demo2) \<longrightarrow>
             previous_hash (chain demo2 ! i) = hash (chain demo2 ! (i - 1))"
    and "is_chain_valid demo_digest demo2" by blast+
  moreover from link len have "previous_hash (chain demo2 ! 1) = hash (chain demo2 ! (1 - 1))"
    by simp
  moreover from link len have "previous_hash (chain demo2 ! 2) = hash (chain demo2 ! (2 - 1))"
    by simp
  ultimately show ?thesis using demo2_reachable by simp
qed

text \<open>
  C2.  On a chain built by the operations, take a block that is not the genesis block and
  mutate it, either in the hashed fields (index, timestamp, transactions, previous hash,
  nonce) with the stored hash left alone, or in the stored hash alone.  Provided the
  digest tells the serialisation of the mutated block from that of the original,
  \<^verbatim>\<open>is_chain_valid\<close> then returns false, and the first violation it reports is a hash
  mismatch at the index of the mutated block.
\<close>

theorem tamper_detected:
  assumes reach: "reachable H c"
    and i: "0 < i" "i < length (chain c)"
    and changed: "b' \<noteq> chain c ! i"
    and one: "hash b' = hash (chain c ! i) \<or> block_content b' = block_content (chain c ! i)"
    and no_collision:
      "inj_on H {sort_keys (block_content b'), sort_keys (block_content (chain c ! i))}"
  shows "\<not> is_chain_valid H (c\<lparr>chain := (chain c)[i := b']\<rparr>)
       \<and> is_chain_valid_report H (c\<lparr>chain := (chain c)[i := b']\<rparr>) = InvalidHash i"
proof -
  let ?d = "difficulty c" and ?ch = "chain c" and ?ch' = "(chain c)[i := b']"
  let ?b = "chain c ! i"
  from reachable_inv[OF reach] have all: "\<forall>j\<in>{1..<length ?ch}. passes H ?d ?ch j"
    by (simp add: chain_inv_def)
  with i have old: "hash ?b = calculate_hash H ?b" by (simp add: passes_def)
  have mismatch: "hash b' \<noteq> calculate_hash H b'"
  proof (cases "block_content b' = block_content ?b")
    case True
    then have "calculate_hash H b' = calculate_hash H ?b" by (simp add: calculate_hash_def)
    moreover have "hash b' \<noteq> hash ?b"
      using True changed sorted_content_inj[of b' ?b] by auto
    ultimately show ?thesis using old by simp
  next
    case False
    with one have same_hash: "hash b' = hash ?b" by simp
    have "sort_keys (block_content b') \<noteq> sort_keys (block_content ?b)"
      using changed same_hash sorted_content_inj[of b' ?b] by auto
    with no_collision have "calculate_hash H b' \<noteq> calculate_hash H ?b"
      by (auto simp: calculate_hash_def inj_on_def)
    with old same_hash show ?thesis by simp
  qed
  have i1: "1 \<le> i" and il: "i < length ?ch'" using i by simp_all
  have before: "\<forall>j\<in>{1..<i}. passes H ?d ?ch' j"
    using all i by (simp add: passes_update_before)
  have fail: "\<not> passes H ?d ?ch' i" using mismatch i by (simp add: passes_def)
  have "is_chain_valid_report H (c\<lparr>chain := ?ch'\<rparr>) = check_blocks H ?d ?ch' [1..<length ?ch']"
    unfolding is_chain_valid_report_def by simp
  also have "\<dots> = finding H ?d ?ch' i"
    by (rule report_first_failure[OF i1 il before fail])
  also have "\<dots> = InvalidHash i" using mismatch i by (simp add: finding_def)
  finally have rep: "is_chain_valid_report H (c\<lparr>chain := ?ch'\<rparr>) = InvalidHash i" .
  then show ?thesis by (simp add: is_chain_valid_iff_report)
qed

theorem tamper_detected_witness:
  "reachable demo_digest demo2 \<and> is_chain_valid demo_digest demo2
   \<and> demo_block1_tampered \<noteq> chain demo2 ! 1
   \<and> hash demo_block1_tampered = hash (chain demo2 ! 1)
   \<and> demo2_tampered = demo2\<lparr>chain := (chain demo2)[1 := demo_block1_tampered]\<rparr>
   \<and> \<not> is_chain_valid demo_digest demo2_tampered
   \<and> is_chain_valid_report demo_digest demo2_tampered = InvalidHash 1"
proof -
  have i: "0 < (1::nat)" "1 < length (chain demo2)" by (simp_all add: demo2_def)
  have changed: "demo_block1_tampered \<noteq> chain demo2 ! 1"
    by (simp add: demo2_def demo_block1_tampered_def demo_block1_def)
  have one: "hash demo_block1_tampered = hash (chain demo2 ! 1)
        \<or> block_content demo_block1_tampered = block_content (chain demo2 ! 1)"
    by (simp add: demo2_def demo_block1_tampered_def)
  have "demo_digest (sort_keys (block_content demo_block1_tampered))
      \<noteq> demo_digest (sort_keys (block_content (chain demo2 ! 1)))" by code_simp
  then have inj: "inj_on demo_digest
      {sort_keys (block_content demo_block1_tampered), sort_keys (block_content (chain demo2 ! 1))}"
    by (auto simp: inj_on_def)
  have valid: "is_chain_valid demo_digest demo2" by code_simp
  have same: "hash demo_block1_tampered = hash (chain demo2 ! 1)"
    by (simp add: demo2_def demo_block1_tampered_def)
  have "\<not> is_chain_valid demo_digest (demo2\<lparr>chain := (chain demo2)[1 := demo_block1_tampered]\<rparr>)
      \<and> is_chain_valid_report demo_digest
          (demo2\<lparr>chain := (chain demo2)[1 := demo_block1_tampered]\<rparr>) = InvalidHash 1"
    by (rule tamper_detected[OF demo2_reachable i changed one inj])
  then show ?thesis using demo2_reachable valid changed same
    by (simp only: demo2_tampered_def simp_thms)
qed

text \<open>
  C8.  \<^verbatim>\<open>calculate_hash\<close> depends on the block only through its index, timestamp, the
  \<^verbatim>\<open>to_dict\<close> views of its transactions, previous hash and nonce (two blocks that agree
  on these have the same hash, whatever their stored hashes).  Its result is a digest:
  64 lower-case hexadecimal characters whenever the digest function produces such
  strings.  The order in which the attributes are inserted into the two kinds of dict
  does not matter: any reordering of the items gives the same hash.
\<close>

theorem calculate_hash_deterministic:
  "(index b = index b' \<and> timestamp b = timestamp b'
      \<and> map to_dict (transactions b) = map to_dict (transactions b')
      \<and> previous_hash b = previous_hash b' \<and> nonce b = nonce b'
      \<longrightarrow> calculate_hash H b = calculate_hash H b')
   \<and> ((\<forall>v. length (H v) = 64 \<and> set (H v) \<subseteq> set ''0123456789abcdef'')
      \<longrightarrow> length (calculate_hash H b) = 64
        \<and> set (calculate_hash H b) \<subseteq> set ''0123456789abcdef'')
   \<and> ((\<forall>t. reordered (td t) (to_dict t))
      \<and> reordered v (JDict
           [(''index'', JInt (index b)),
            (''timestamp'', JFloat (timestamp b)),
            (''transactions'', JList (map td (transactions b))),
            (''previous_hash'', JStr (previous_hash b)),
            (''nonce'', JInt (nonce b))])
      \<longrightarrow> H (sort_keys v) = calculate_hash H b)"
proof (intro conjI impI)
  assume "index b = index b' \<and> timestamp b = timestamp b'
      \<and> map to_dict (transactions b) = map to_dict (transactions b')
      \<and> previous_hash b = previous_hash b' \<and> nonce b = nonce b'"
  then show "calculate_hash H b = calculate_hash H b'"
    by (simp add: calculate_hash_def block_content_def)
next
  assume "\<forall>v. length (H v) = 64 \<and> set (H v) \<subseteq> set ''0123456789abcdef''"
  then show "length (calculate_hash H b) = 64" "set (calculate_hash H b) \<subseteq> set ''0123456789abcdef''"
    unfolding calculate_hash_def by blast+
next
  let ?kvs = "[(''index'', JInt (index b)),
            (''timestamp'', JFloat (timestamp b)),
            (''transactions'', JList (map td (transactions b))),
            (''previous_hash'', JStr (previous_hash b)),
            (''nonce'', JInt (nonce b))]"
  assume a: "(\<forall>t. reordered (td t) (to_dict t)) \<and> reordered v (JDict ?kvs)"
  then have td: "\<And>t. sort_keys (td t) = sort_keys (to_dict t)"
    by (simp add: sort_keys_reordered_to_dict)
  from a have "sort_keys v = sort_keys (JDict ?kvs)"
    by (intro sort_keys_reordered) simp_all
  also have "\<dots> = sort_keys (block_content b)"
    by (simp add: block_content_def td)
  finally show "H (sort_keys v) = calculate_hash H b" by (simp add: calculate_hash_def)
qed

theorem calculate_hash_deterministic_witness:
  "calculate_hash demo_digest (demo_block1\<lparr>hash := ''stale''\<rparr>)
     = calculate_hash demo_digest demo_block1
   \<and> length (calculate_hash demo_digest demo_block1) = 64
   \<and> set (calculate_hash demo_digest demo_block1) \<subseteq> set ''0123456789abcdef''
   \<and> demo_digest (sort_keys (JDict
        [(''nonce'', JInt (nonce demo_block1)),
         (''previous_hash'', JStr (previous_hash demo_block1)),
         (''transactions'', JList (map to_dict_reversed (transactions demo_block1))),
         (''timestamp'', JFloat (timestamp demo_block1)),
         (''index'', JInt (index demo_block1))]))
     = calculate_hash demo_digest demo_block1"
proof -
  note inst = calculate_hash_deterministic[where H = demo_digest and b = demo_block1
      and b' = "demo_block1\<lparr>hash := ''stale''\<rparr>" and td = to_dict_reversed
      and v = "JDict
        [(''nonce'', JInt (nonce demo_block1)),
         (''previous_hash'', JStr (previous_hash demo_block1)),
         (''transactions'', JList (map to_dict_reversed (transactions demo_block1))),
         (''timestamp'', JFloat (timestamp demo_block1)),
         (''index'', JInt (index demo_block1))]"]
  have hex: "\<forall>v. length (demo_digest v) = 64 \<and> set (demo_digest v) \<subseteq> set ''0123456789abcdef''"
    using demo_digest_hex by blast
  have re: "\<forall>t. reordered (to_dict_reversed t) (to_dict t)"
    by (simp add: to_dict_reversed_def to_dict_def)
  have re2: "reordered (JDict
        [(''nonce'', JInt (nonce demo_block1)),
         (''previous_hash'', JStr (previous_hash demo_block1)),
         (''transactions'', JList (map to_dict_reversed (transactions demo_block1))),
         (''timestamp'', JFloat (timestamp demo_block1)),
         (''index'', JInt (index demo_block1))])
      (JDict
           [(''index'', JInt (index demo_block1)),
            (''timestamp'', JFloat (timestamp demo_block1)),
            (''transactions'', JList (map to_dict_reversed (transactions demo_block1))),
            (''previous_hash'', JStr (previous_hash demo_block1)),
            (''nonce'', JInt (nonce demo_block1))])"
    by simp
  from inst[THEN conjunct1] have 1: "calculate_hash demo_digest demo_block1
     = calculate_hash demo_digest (demo_block1\<lparr>hash := ''stale''\<rparr>)" by simp
  from inst[THEN conjunct2, THEN conjunct1] hex
  have 2: "length (calculate_hash demo_digest demo_block1) = 64
        \<and> set (calculate_hash demo_digest demo_block1) \<subseteq> set ''0123456789abcdef''" by blast
  from inst[THEN conjunct2, THEN conjunct2] re re2
  have 3: "demo_digest (sort_keys (JDict
        [(''nonce'', JInt (nonce demo_block1)),
         (''previous_hash'', JStr (previous_hash demo_block1)),
         (''transactions'', JList (map to_dict_reversed (transactions demo_block1))),
         (''timestamp'', JFloat (timestamp demo_block1)),
         (''index'', JInt (index demo_block1))]))
     = calculate_hash demo_digest demo_block1" by blast
  from 1 2 3 show ?thesis by simp
qed

end
